theory Spec2Isabelle
  imports Main "HOL-Library.Word" "HOL-Library.Sublist"
begin

unbundle bit_operations_syntax

section \<open>RingBase: storage, cursors, full and empty\<close>

text \<open>
  \<^verbatim>\<open>RingBase<T, size_>\<close> holds an array \<^verbatim>\<open>buff_\<close> of \<^verbatim>\<open>size_\<close> elements and two
  \<^verbatim>\<open>std::atomic<size_t>\<close> cursors \<^verbatim>\<open>head_\<close> (write cursor) and \<^verbatim>\<open>tail_\<close> (read cursor).
  \<^verbatim>\<open>size_t\<close> is taken as a 64-bit unsigned integer, so cursor arithmetic wraps at
  \<open>2 ^ 64\<close>. The template parameter \<^verbatim>\<open>size_\<close> is the first argument of every operation.
  The model is the sequential one: each member function runs from its first to its last
  statement with no other thread running in between.
\<close>

type_synonym size_t = "64 word"

record 'a ring =
  buff :: "'a list"
  head :: size_t
  tail :: size_t

definition can_mod_opt :: "size_t \<Rightarrow> bool" where
  "can_mod_opt sz = (sz AND (sz - 1) = 0)"

definition size_mask :: "size_t \<Rightarrow> size_t" where
  "size_mask sz = sz - 1"

text \<open>The two \<^verbatim>\<open>static_assert\<close>s on \<^verbatim>\<open>size_\<close>: a power of two, and greater than 1.\<close>

definition valid_size :: "size_t \<Rightarrow> bool" where
  "valid_size sz = (can_mod_opt sz \<and> 1 < sz)"

text \<open>
  The defaulted constructor: \<^verbatim>\<open>buff_[size_]{}\<close> value-initialises every slot (to \<open>d\<close>,
  the value of \<^verbatim>\<open>T{}\<close>), \<^verbatim>\<open>head_{0}\<close>, \<^verbatim>\<open>tail_{0}\<close>.
\<close>

definition RingBase :: "size_t \<Rightarrow> 'a \<Rightarrow> 'a ring" where
  "RingBase sz d = \<lparr>buff = replicate (unat sz) d, head = 0, tail = 0\<rparr>"

definition is_full :: "size_t \<Rightarrow> 'a ring \<Rightarrow> bool" where
  "is_full sz s =
     (let lhead = (head s + 1) AND size_mask sz;
          ltail = tail s AND size_mask sz
      in lhead = ltail)"

definition is_empty :: "size_t \<Rightarrow> 'a ring \<Rightarrow> bool" where
  "is_empty sz s =
     (let lhead = head s AND size_mask sz;
          ltail = tail s AND size_mask sz
      in lhead = ltail)"

text \<open>
  A call either returns, or suspends in \<^verbatim>\<open>std::atomic::wait\<close> on one of the two cursors
  with the value it compared against (with no other thread to change that cursor it
  stays suspended), or stops at a failed \<^verbatim>\<open>assert\<close>. Assertions are modelled as in a
  debug build, where they are checked.
\<close>

datatype atomic = Head | Tail

datatype 'r outcome = Returns 'r | Parks atomic size_t | AssertFails

section \<open>RingBuffer\<close>

text \<open>\<^verbatim>\<open>write\<close> is named \<open>write_buf\<close> here, \<open>write\<close> being a reserved word of Isabelle.\<close>

definition write_buf :: "size_t \<Rightarrow> 'a \<Rightarrow> 'a ring \<Rightarrow> bool \<times> 'a ring" where
  "write_buf sz v s =
     (if is_full sz s then (False, s)
      else (True, s\<lparr>buff := (buff s)[unat (head s AND size_mask sz) := v],
                     head := head s + 1\<rparr>))"

definition overwrite :: "size_t \<Rightarrow> 'a \<Rightarrow> 'a ring \<Rightarrow> 'a ring" where
  "overwrite sz v s =
     (let s1 = (if is_full sz s then s\<lparr>tail := tail s + 1\<rparr> else s)
      in s1\<lparr>buff := (buff s1)[unat (head s1 AND size_mask sz) := v],
             head := head s1 + 1\<rparr>)"

definition read :: "size_t \<Rightarrow> 'a ring \<Rightarrow> 'a option \<times> 'a ring" where
  "read sz s =
     (let lhead = head s AND size_mask sz;
          ltail = tail s AND size_mask sz
      in if lhead = ltail then (None, s)
         else (Some (buff s ! unat ltail), s\<lparr>tail := tail s + 1\<rparr>))"

text \<open>\<^verbatim>\<open>try_current\<close> and \<^verbatim>\<open>current\<close> are \<^verbatim>\<open>const\<close>: they return a value and no new state.\<close>

definition try_current :: "size_t \<Rightarrow> 'a ring \<Rightarrow> 'a option" where
  "try_current sz s =
     (let lhead = head s; ltail = tail s
      in if lhead AND size_mask sz = ltail AND size_mask sz then None
         else Some (buff s ! unat (ltail AND size_mask sz)))"

definition current :: "size_t \<Rightarrow> 'a ring \<Rightarrow> 'a outcome" where
  "current sz s =
     (let lhead = head s; ltail = tail s
      in if lhead AND size_mask sz = ltail AND size_mask sz then Parks Head lhead
         else Returns (buff s ! unat (ltail AND size_mask sz)))"

section \<open>RingQueue\<close>

text \<open>
  Every queue operation yields its outcome, the state it leaves, and the cursors on which
  it called \<^verbatim>\<open>notify_all\<close>, in order. \<^verbatim>\<open>try_current\<close> and \<^verbatim>\<open>current\<close> of the queue have
  the same bodies as those of the buffer and are the same functions here.
\<close>

definition enqueue :: "size_t \<Rightarrow> 'a \<Rightarrow> 'a ring \<Rightarrow> unit outcome \<times> 'a ring \<times> atomic list" where
  "enqueue sz v s =
     (let lhead = head s; ltail = tail s
      in if (lhead + 1) AND size_mask sz = ltail AND size_mask sz
         then (Parks Tail ltail, s, [])
         else (Returns (),
               s\<lparr>buff := (buff s)[unat (lhead AND size_mask sz) := v], head := head s + 1\<rparr>,
               [Head]))"

definition try_enqueue :: "size_t \<Rightarrow> 'a \<Rightarrow> 'a ring \<Rightarrow> bool \<times> 'a ring \<times> atomic list" where
  "try_enqueue sz v s =
     (let lhead = head s; ltail = tail s
      in if (lhead + 1) AND size_mask sz = ltail AND size_mask sz
         then (False, s, [])
         else (True,
               s\<lparr>buff := (buff s)[unat (lhead AND size_mask sz) := v], head := head s + 1\<rparr>,
               [Head]))"

definition dequeue :: "size_t \<Rightarrow> 'a ring \<Rightarrow> 'a outcome \<times> 'a ring \<times> atomic list" where
  "dequeue sz s =
     (let lhead = head s; ltail = tail s
      in if lhead AND size_mask sz = ltail AND size_mask sz
         then (Parks Head lhead, s, [])
         else (Returns (buff s ! unat (tail s AND size_mask sz)),
               s\<lparr>tail := tail s + 1\<rparr>, [Tail]))"

definition try_dequeue :: "size_t \<Rightarrow> 'a ring \<Rightarrow> 'a option \<times> 'a ring \<times> atomic list" where
  "try_dequeue sz s =
     (let lhead = head s AND size_mask sz;
          ltail = tail s AND size_mask sz
      in if lhead = ltail then (None, s, [])
         else (Some (buff s ! unat ltail), s\<lparr>tail := tail s + 1\<rparr>, [Tail]))"

text \<open>
  \<^verbatim>\<open>max_distance\<close> is the local of \<^verbatim>\<open>can_peek\<close> and \<^verbatim>\<open>try_peek\<close>, computed from the
  two masked cursors.
\<close>

definition max_distance :: "size_t \<Rightarrow> 'a ring \<Rightarrow> size_t" where
  "max_distance sz s =
     (let lhead = head s AND size_mask sz;
          ltail = tail s AND size_mask sz
      in if lhead \<ge> ltail then lhead - ltail else (sz - ltail) + lhead)"

definition can_peek :: "size_t \<Rightarrow> size_t \<Rightarrow> 'a ring \<Rightarrow> bool outcome \<times> 'a ring \<times> atomic list" where
  "can_peek sz amnt s =
     (if \<not> amnt < sz then (AssertFails, s, [])
      else (Returns (amnt < max_distance sz s), s, []))"

definition try_peek :: "size_t \<Rightarrow> size_t \<Rightarrow> 'a ring \<Rightarrow> 'a option outcome \<times> 'a ring \<times> atomic list" where
  "try_peek sz amnt s =
     (let ltail = tail s AND size_mask sz
      in if amnt \<ge> max_distance sz s then (Returns None, s, [])
         else if \<not> amnt < sz then (AssertFails, s, [])
         else if \<not> ((ltail + amnt) AND size_mask sz) < sz then (AssertFails, s, [])
         else (Returns (Some (buff s ! unat ((ltail + amnt) AND size_mask sz))), s, []))"

text \<open>
  \<^verbatim>\<open>peek\<close> loops \<^verbatim>\<open>while(!can_peek(amnt)) head_.wait(head_.load())\<close>. With no other
  thread, the first \<^verbatim>\<open>wait\<close> never returns, so the loop body runs at most once.
  \<^verbatim>\<open>can_peek\<close> itself never parks; that case only completes the case distinction.
\<close>

definition peek :: "size_t \<Rightarrow> size_t \<Rightarrow> 'a ring \<Rightarrow> 'a outcome \<times> 'a ring \<times> atomic list" where
  "peek sz amnt s =
     (let ltail = tail s AND size_mask sz
      in case fst (can_peek sz amnt s) of
           AssertFails \<Rightarrow> (AssertFails, s, [])
         | Parks a w \<Rightarrow> (Parks a w, s, [])
         | Returns False \<Rightarrow> (Parks Head (head s), s, [])
         | Returns True \<Rightarrow> (Returns (buff s ! unat ((ltail + amnt) AND size_mask sz)), s, []))"

definition wake_all :: "'a ring \<Rightarrow> unit \<times> 'a ring \<times> atomic list" where
  "wake_all s = ((), s, [Head, Tail])"

section \<open>Call sequences\<close>

text \<open>
  The states a buffer or a queue can be in are those reached from the constructor by a
  sequence of calls. \<open>buffer_step\<close> and \<open>queue_step\<close> give the state a call leaves;
  a call that parks or stops at an assertion has stored nothing, and \<^verbatim>\<open>const\<close> members
  leave the state as it is.
\<close>

datatype 'a buffer_call = Write 'a | Overwrite 'a | Read | TryCurrent | Current

fun buffer_step :: "size_t \<Rightarrow> 'a buffer_call \<Rightarrow> 'a ring \<Rightarrow> 'a ring" where
  "buffer_step sz (Write v) s = snd (write_buf sz v s)"
| "buffer_step sz (Overwrite v) s = overwrite sz v s"
| "buffer_step sz Read s = snd (read sz s)"
| "buffer_step sz TryCurrent s = s"
| "buffer_step sz Current s = s"

fun buffer_run :: "size_t \<Rightarrow> 'a buffer_call list \<Rightarrow> 'a ring \<Rightarrow> 'a ring" where
  "buffer_run sz [] s = s"
| "buffer_run sz (c # cs) s = buffer_run sz cs (buffer_step sz c s)"

text \<open>The values returned by the \<^verbatim>\<open>read\<close> calls of a sequence that returned one, in call order.\<close>

fun reads :: "size_t \<Rightarrow> 'a buffer_call list \<Rightarrow> 'a ring \<Rightarrow> 'a list" where
  "reads sz [] s = []"
| "reads sz (Read # cs) s =
     (case fst (read sz s) of None \<Rightarrow> [] | Some x \<Rightarrow> [x]) @ reads sz cs (buffer_step sz Read s)"
| "reads sz (c # cs) s = reads sz cs (buffer_step sz c s)"

text \<open>
  The values stored by a sequence, in call order: those passed to \<^verbatim>\<open>write\<close> calls that
  returned \<^verbatim>\<open>true\<close>, and those passed to \<^verbatim>\<open>overwrite\<close>.
\<close>

fun accepted :: "size_t \<Rightarrow> 'a buffer_call list \<Rightarrow> 'a ring \<Rightarrow> 'a list" where
  "accepted sz [] s = []"
| "accepted sz (Write v # cs) s =
     (if fst (write_buf sz v s) then [v] else []) @ accepted sz cs (buffer_step sz (Write v) s)"
| "accepted sz (Overwrite v # cs) s = v # accepted sz cs (buffer_step sz (Overwrite v) s)"
| "accepted sz (c # cs) s = accepted sz cs (buffer_step sz c s)"

text \<open>The values passed to the \<^verbatim>\<open>write\<close> calls of a sequence, in call order.\<close>

fun written :: "'a buffer_call list \<Rightarrow> 'a list" where
  "written [] = []"
| "written (Write v # cs) = v # written cs"
| "written (c # cs) = written cs"

text \<open>The flags returned by the \<^verbatim>\<open>write\<close> calls of a sequence, in call order.\<close>

fun write_flags :: "size_t \<Rightarrow> 'a buffer_call list \<Rightarrow> 'a ring \<Rightarrow> bool list" where
  "write_flags sz [] s = []"
| "write_flags sz (Write v # cs) s =
     fst (write_buf sz v s) # write_flags sz cs (buffer_step sz (Write v) s)"
| "write_flags sz (c # cs) s = write_flags sz cs (buffer_step sz c s)"

fun write_or_read :: "'a buffer_call \<Rightarrow> bool" where
  "write_or_read (Write v) = True"
| "write_or_read Read = True"
| "write_or_read c = False"

text \<open>No \<^verbatim>\<open>write\<close> of the sequence is attempted while the buffer is full.\<close>

fun no_write_when_full :: "size_t \<Rightarrow> 'a buffer_call list \<Rightarrow> 'a ring \<Rightarrow> bool" where
  "no_write_when_full sz [] s = True"
| "no_write_when_full sz (Write v # cs) s =
     (\<not> is_full sz s \<and> no_write_when_full sz cs (buffer_step sz (Write v) s))"
| "no_write_when_full sz (c # cs) s = no_write_when_full sz cs (buffer_step sz c s)"

datatype 'a queue_call =
    Enqueue 'a | TryEnqueue 'a | Dequeue | TryDequeue | TryCurrentQ | CurrentQ
  | CanPeek size_t | TryPeek size_t | Peek size_t | WakeAll

fun queue_step :: "size_t \<Rightarrow> 'a queue_call \<Rightarrow> 'a ring \<Rightarrow> 'a ring" where
  "queue_step sz (Enqueue v) s = fst (snd (enqueue sz v s))"
| "queue_step sz (TryEnqueue v) s = fst (snd (try_enqueue sz v s))"
| "queue_step sz Dequeue s = fst (snd (dequeue sz s))"
| "queue_step sz TryDequeue s = fst (snd (try_dequeue sz s))"
| "queue_step sz TryCurrentQ s = s"
| "queue_step sz CurrentQ s = s"
| "queue_step sz (CanPeek n) s = fst (snd (can_peek sz n s))"
| "queue_step sz (TryPeek n) s = fst (snd (try_peek sz n s))"
| "queue_step sz (Peek n) s = fst (snd (peek sz n s))"
| "queue_step sz WakeAll s = fst (snd (wake_all s))"

fun queue_run :: "size_t \<Rightarrow> 'a queue_call list \<Rightarrow> 'a ring \<Rightarrow> 'a ring" where
  "queue_run sz [] s = s"
| "queue_run sz (c # cs) s = queue_run sz cs (queue_step sz c s)"

section \<open>The unread elements\<close>

text \<open>
  \<open>slot\<close> is the physical slot of a cursor value, \<open>used\<close> the unsigned difference of the
  two cursors, and \<open>contents\<close> the elements between the read cursor and the write cursor,
  oldest first: the element \<open>i\<close> positions ahead of the read cursor is in the slot of
  \<open>tail + i\<close>.
\<close>

definition slot :: "size_t \<Rightarrow> size_t \<Rightarrow> nat" where
  "slot sz c = unat (c AND size_mask sz)"

definition used :: "'a ring \<Rightarrow> nat" where
  "used s = unat (head s - tail s)"

definition contents :: "size_t \<Rightarrow> 'a ring \<Rightarrow> 'a list" where
  "contents sz s = map (\<lambda>i. buff s ! slot sz (tail s + of_nat i)) [0..<used s]"

definition ring_inv :: "size_t \<Rightarrow> 'a ring \<Rightarrow> bool" where
  "ring_inv sz s = (length (buff s) = unat sz \<and> used s < unat sz)"

text \<open>The store-and-advance of the write side, and the advance of the read side.\<close>

definition push :: "size_t \<Rightarrow> 'a \<Rightarrow> 'a ring \<Rightarrow> 'a ring" where
  "push sz v s = s\<lparr>buff := (buff s)[unat (head s AND size_mask sz) := v], head := head s + 1\<rparr>"

definition pop :: "'a ring \<Rightarrow> 'a ring" where
  "pop s = s\<lparr>tail := tail s + 1\<rparr>"

text \<open>The element behind the oldest one, when there is one.\<close>

definition second_oldest :: "size_t \<Rightarrow> 'a ring \<Rightarrow> 'a option" where
  "second_oldest sz s = (if 1 < length (contents sz s) then Some (contents sz s ! 1) else None)"

text \<open>
  The available count as the specification words it: the difference of the masked cursors
  when the masked write cursor is not below the masked read cursor, and
  \<open>(N - read_cursor_masked) + write_cursor_masked\<close> otherwise.
\<close>

definition available_spec :: "size_t \<Rightarrow> 'a ring \<Rightarrow> nat" where
  "available_spec sz s =
     (let write_cursor_masked = unat (head s AND (sz - 1));
          read_cursor_masked = unat (tail s AND (sz - 1))
      in if write_cursor_masked \<ge> read_cursor_masked
         then write_cursor_masked - read_cursor_masked
         else (unat sz - read_cursor_masked) + write_cursor_masked)"

section \<open>Sizes and slots\<close>


lemma pow2_nat: "0 < n \<Longrightarrow> n AND (n - 1) = 0 \<Longrightarrow> \<exists>k. n = 2 ^ k" for n :: nat
proof (induction n rule: less_induct)
  case (less n)
  show ?case
  proof (cases "even n")
    case True
    then obtain m where m: "n = 2 * m" by (elim evenE)
    with less.prems have m0: "0 < m" by simp
    have "n - 1 = 2 * (m - 1) + 1" using m m0 by simp
    then have "n AND (n - 1) = 2 * (m AND (m - 1))"
      using m m0 by (subst and_nat_unfold) simp
    with less.prems have "m AND (m - 1) = 0" by simp
    moreover have "m < n" using m m0 by simp
    ultimately obtain k where "m = 2 ^ k" using less.IH m0 by blast
    then have "n = 2 ^ Suc k" using m by simp
    then show ?thesis by blast
  next
    case False
    then obtain m where m: "n = 2 * m + 1" by (elim oddE)
    then have "n AND (n - 1) = 2 * m"
      by (subst and_nat_unfold) simp
    with less.prems have "m = 0" by simp
    then have "n = 2 ^ 0" using m by simp
    then show ?thesis by blast
  qed
qed

lemma unat_2p: "k < 64 \<Longrightarrow> unat (2 ^ k :: size_t) = 2 ^ k"
proof -
  assume k: "k < 64"
  have "(2 ^ k :: size_t) = of_nat (2 ^ k)" by simp
  then have "unat (2 ^ k :: size_t) = take_bit 64 (2 ^ k :: nat)"
    by (simp only: unsigned_of_nat) simp
  also have "\<dots> = 2 ^ k"
  proof (rule take_bit_nat_eq_self)
    show "(2::nat) ^ k < 2 ^ 64" using k by (intro power_strict_increasing) simp_all
  qed
  finally show ?thesis .
qed

lemma valid_size_pow2:
  assumes "valid_size sz"
  shows "\<exists>k. 0 < k \<and> k < 64 \<and> sz = 2 ^ k"
proof -
  from assms have a: "sz AND (sz - 1) = 0" and b: "1 < sz"
    by (simp_all add: valid_size_def can_mod_opt_def)
  from b have nz: "sz \<noteq> 0" by auto
  have "unat (sz - 1) = unat sz - 1" using nz by (simp add: unat_minus_one)
  moreover have "unat (sz AND (sz - 1)) = unat sz AND unat (sz - 1)"
    by (simp add: unsigned_and_eq)
  ultimately have "unat sz AND (unat sz - 1) = 0" using a by simp
  moreover have "0 < unat sz" using nz by (simp add: unat_gt_0)
  ultimately obtain k where k: "unat sz = 2 ^ k" using pow2_nat by blast
  have "unat sz < 2 ^ LENGTH(64)" by (rule unsigned_less)
  with k have "(2::nat) ^ k < 2 ^ 64" by simp
  then have k64: "k < 64" by (rule power_less_imp_less_exp[rotated]) simp
  from k k64 have "sz = 2 ^ k" unfolding word_unat_eq_iff by (simp add: unat_2p)
  moreover have "0 < k" using b k by (cases k) (auto simp: word_less_nat_alt)
  ultimately show ?thesis using k64 by blast
qed

lemma slot_mod:
  assumes "valid_size sz"
  shows "slot sz c = unat c mod unat sz"
proof -
  from valid_size_pow2[OF assms] obtain k where k: "k < 64" "sz = 2 ^ k" by blast
  have "size_mask sz = mask k" by (simp add: size_mask_def k mask_eq_decr_exp)
  then have "c AND size_mask sz = take_bit k c" by (simp add: take_bit_eq_mask)
  then have "slot sz c = take_bit k (unat c)" by (simp add: slot_def unsigned_take_bit_eq)
  also have "\<dots> = unat c mod 2 ^ k" by (simp add: take_bit_nat_def)
  finally show ?thesis using k by (simp add: unat_2p)
qed

lemma size_dvd:
  assumes "valid_size sz"
  shows "unat sz dvd 2 ^ 64"
proof -
  from valid_size_pow2[OF assms] obtain k where k: "k < 64" "sz = 2 ^ k" by blast
  have "(2::nat) ^ k dvd 2 ^ 64" using k by (intro le_imp_power_dvd) simp
  then show ?thesis using k by (simp only: unat_2p)
qed

lemma size_ge2:
  assumes "valid_size sz"
  shows "2 \<le> unat sz"
proof -
  from assms have "1 < sz" by (simp add: valid_size_def)
  then have "unat (1::size_t) < unat sz" by (simp only: word_less_nat_alt)
  then show ?thesis by simp
qed

lemma slot_less: "valid_size sz \<Longrightarrow> slot sz c < unat sz"
  using size_ge2[of sz] by (simp add: slot_mod)

lemma slot_add:
  assumes "valid_size sz"
  shows "slot sz (c + of_nat i) = (unat c + i) mod unat sz"
proof -
  have "unat (c + of_nat i) = (unat c + i) mod 2 ^ 64"
    by (simp only: unat_word_ariths unat_of_nat mod_add_right_eq) simp
  then have "slot sz (c + of_nat i) = ((unat c + i) mod 2 ^ 64) mod unat sz"
    by (simp only: slot_mod[OF assms])
  also have "\<dots> = (unat c + i) mod unat sz"
    by (rule mod_mod_cancel[OF size_dvd[OF assms]])
  finally show ?thesis .
qed

lemma slot_head:
  assumes "valid_size sz"
  shows "slot sz (head s) = (unat (tail s) + used s) mod unat sz"
proof -
  have "head s = tail s + of_nat (used s)" by (simp add: used_def)
  then show ?thesis using slot_add[OF assms, of "tail s" "used s"] by simp
qed

lemma slot_head_Suc:
  assumes "valid_size sz"
  shows "slot sz (head s + 1) = (unat (tail s) + Suc (used s)) mod unat sz"
proof -
  have eq: "head s + 1 = tail s + of_nat (Suc (used s))" by (simp add: used_def)
  show ?thesis by (simp only: eq slot_add[OF assms])
qed

lemma mod_add_cancel_left:
  "((a + x) mod n = (a + y) mod n) = (x mod n = y mod n)" for a x y n :: nat
proof -
  have "((a + x) mod n = (a + y) mod n) = (int (a + x) mod int n = int (a + y) mod int n)"
    by (simp only: of_nat_mod[symmetric] of_nat_eq_iff)
  also have "\<dots> = (int n dvd int (a + x) - int (a + y))"
    by (rule mod_eq_dvd_iff)
  also have "\<dots> = (int n dvd int x - int y)" by simp
  also have "\<dots> = (int x mod int n = int y mod int n)"
    by (rule mod_eq_dvd_iff[symmetric])
  also have "\<dots> = (x mod n = y mod n)"
    by (simp only: of_nat_mod[symmetric] of_nat_eq_iff)
  finally show ?thesis .
qed

lemma slot_zero:
  assumes "valid_size sz"
  shows "slot sz c = (unat c + 0) mod unat sz"
  by (simp add: slot_mod[OF assms])

lemma slot_inj:
  assumes "valid_size sz" "i < unat sz" "j < unat sz"
  shows "(slot sz (c + of_nat i) = slot sz (c + of_nat j)) = (i = j)"
  using assms by (simp add: slot_add mod_add_cancel_left)

lemma is_empty_iff:
  assumes "valid_size sz" "ring_inv sz s"
  shows "is_empty sz s = (used s = 0)"
proof -
  have "is_empty sz s = (slot sz (head s) = slot sz (tail s))"
    by (simp add: is_empty_def slot_def word_unat_eq_iff)
  also have "\<dots> = ((unat (tail s) + used s) mod unat sz = (unat (tail s) + 0) mod unat sz)"
    by (simp only: slot_head[OF assms(1)] slot_zero[OF assms(1), of "tail s"])
  also have "\<dots> = (used s mod unat sz = 0)"
    by (simp only: mod_add_cancel_left) simp
  also have "\<dots> = (used s = 0)" using assms(2) by (simp add: ring_inv_def)
  finally show ?thesis .
qed

lemma is_full_iff:
  assumes "valid_size sz" "ring_inv sz s"
  shows "is_full sz s = (Suc (used s) = unat sz)"
proof -
  have "is_full sz s = (slot sz (head s + 1) = slot sz (tail s))"
    by (simp add: is_full_def slot_def word_unat_eq_iff)
  also have "\<dots> = ((unat (tail s) + Suc (used s)) mod unat sz = (unat (tail s) + 0) mod unat sz)"
    by (simp only: slot_head_Suc[OF assms(1)] slot_zero[OF assms(1), of "tail s"])
  also have "\<dots> = (Suc (used s) mod unat sz = 0)"
    by (simp only: mod_add_cancel_left) simp
  also have "\<dots> = (Suc (used s) = unat sz)"
    using assms(2) by (auto simp: ring_inv_def mod_Suc)
  finally show ?thesis .
qed

section \<open>Store and advance\<close>


lemma used_head_Suc:
  assumes "used s < unat (sz :: size_t)"
  shows "used (s\<lparr>head := head s + 1\<rparr>) = Suc (used s)"
proof -
  have "unat sz < 2 ^ LENGTH(64)" by (rule unsigned_less)
  with assms have "unat (head s - tail s) + unat (1::size_t) < 2 ^ LENGTH(64)"
    by (simp add: used_def)
  then have "unat ((head s - tail s) + 1) = unat (head s - tail s) + unat (1::size_t)"
    by (simp only: unat_add_lem)
  moreover have "head s + 1 - tail s = (head s - tail s) + 1" by simp
  ultimately have "unat (head s + 1 - tail s) = Suc (unat (head s - tail s))"
    by (simp only:) simp
  then show ?thesis by (simp add: used_def)
qed

lemma used_tail_Suc:
  assumes "used s \<noteq> 0"
  shows "used (s\<lparr>tail := tail s + 1\<rparr>) = used s - 1"
proof -
  from assms have nz: "head s - tail s \<noteq> 0" by (simp add: used_def unat_eq_0)
  have eq: "head s - (tail s + 1) = (head s - tail s) - 1" by simp
  have "unat (head s - (tail s + 1)) = unat ((head s - tail s) - 1)" by (simp only: eq)
  also have "\<dots> = unat (head s - tail s) - 1" using nz by (rule unat_minus_one)
  finally show ?thesis by (simp add: used_def)
qed

lemma push_props:
  assumes v: "valid_size sz" and inv: "ring_inv sz s" and nf: "\<not> is_full sz s"
  shows "ring_inv sz (push sz v s)"
    and "contents sz (push sz v s) = contents sz s @ [v]"
    and "used (push sz v s) = Suc (used s)"
proof -
  from inv have len: "length (buff s) = unat sz" and u: "used s < unat sz"
    by (simp_all add: ring_inv_def)
  from nf u have u2: "Suc (used s) < unat sz"
    by (simp add: is_full_iff[OF v inv])
  have used': "used (push sz v s) = Suc (used s)"
    using used_head_Suc[OF u] by (simp add: push_def used_def)
  show "used (push sz v s) = Suc (used s)" by (rule used')
  show "ring_inv sz (push sz v s)"
    using used' u2 len by (simp add: ring_inv_def) (simp add: push_def)
  have hs: "unat (head s AND size_mask sz) = slot sz (tail s + of_nat (used s))"
    by (simp add: slot_def used_def)
  have old: "(buff s)[slot sz (tail s + of_nat (used s)) := v] ! slot sz (tail s + of_nat i)
      = buff s ! slot sz (tail s + of_nat i)" if "i < used s" for i
  proof -
    have "slot sz (tail s + of_nat (used s)) \<noteq> slot sz (tail s + of_nat i)"
      using that u by (simp add: slot_inj[OF v])
    then show ?thesis by simp
  qed
  have new: "(buff s)[slot sz (tail s + of_nat (used s)) := v] ! slot sz (tail s + of_nat (used s)) = v"
    using slot_less[OF v] len by simp
  have "contents sz (push sz v s) =
      map (\<lambda>i. (buff s)[slot sz (tail s + of_nat (used s)) := v] ! slot sz (tail s + of_nat i))
        [0..<Suc (used s)]"
    unfolding contents_def used' by (simp add: push_def hs)
  also have "\<dots> = contents sz s @ [v]"
    using old new by (simp add: contents_def)
  finally show "contents sz (push sz v s) = contents sz s @ [v]" .
qed

lemma pop_props:
  assumes v: "valid_size sz" and inv: "ring_inv sz s" and ne: "\<not> is_empty sz s"
  shows "ring_inv sz (pop s)"
    and "contents sz (pop s) = tl (contents sz s)"
    and "used (pop s) = used s - 1"
    and "contents sz s \<noteq> []"
    and "buff s ! unat (tail s AND size_mask sz) = hd (contents sz s)"
proof -
  from inv have len: "length (buff s) = unat sz" and u: "used s < unat sz"
    by (simp_all add: ring_inv_def)
  from ne have u0: "used s \<noteq> 0" by (simp add: is_empty_iff[OF v inv])
  have used': "used (pop s) = used s - 1"
    using used_tail_Suc[OF u0] by (simp add: pop_def)
  show "used (pop s) = used s - 1" by (rule used')
  show "ring_inv sz (pop s)"
    using used' u len by (simp add: ring_inv_def) (simp add: pop_def)
  show "contents sz s \<noteq> []" using u0 by (simp add: contents_def)
  have "contents sz (pop s) =
      map (\<lambda>i. buff s ! slot sz (tail s + of_nat (Suc i))) [0..<used s - 1]"
    unfolding contents_def used' by (simp add: pop_def add.assoc)
  also have "\<dots> = tl (contents sz s)"
  proof (rule nth_equalityI)
    show "length (map (\<lambda>i. buff s ! slot sz (tail s + of_nat (Suc i))) [0..<used s - 1])
        = length (tl (contents sz s))"
      by (simp add: contents_def)
  next
    fix i
    assume "i < length (map (\<lambda>i. buff s ! slot sz (tail s + of_nat (Suc i))) [0..<used s - 1])"
    then have "Suc i < used s" "i < used s - 1" by simp_all
    then show "map (\<lambda>i. buff s ! slot sz (tail s + of_nat (Suc i))) [0..<used s - 1] ! i
        = tl (contents sz s) ! i"
      by (simp add: contents_def nth_tl)
  qed
  finally show "contents sz (pop s) = tl (contents sz s)" .
  show "buff s ! unat (tail s AND size_mask sz) = hd (contents sz s)"
    using u0 by (simp add: contents_def hd_map slot_def upt_conv_Cons)
qed

section \<open>The operations in terms of store and advance\<close>

lemma write_buf_eq:
  "write_buf sz v s = (if is_full sz s then (False, s) else (True, push sz v s))"
  by (simp add: write_buf_def push_def)

lemma overwrite_eq:
  "overwrite sz v s = push sz v (if is_full sz s then pop s else s)"
  by (simp add: overwrite_def push_def pop_def Let_def)

lemma read_eq:
  "read sz s = (if is_empty sz s then (None, s)
                else (Some (buff s ! unat (tail s AND size_mask sz)), pop s))"
  by (simp add: read_def is_empty_def pop_def Let_def)

lemma try_current_eq:
  "try_current sz s = (if is_empty sz s then None
                       else Some (buff s ! unat (tail s AND size_mask sz)))"
  by (simp add: try_current_def is_empty_def Let_def)

lemma current_eq:
  "current sz s = (if is_empty sz s then Parks Head (head s)
                   else Returns (buff s ! unat (tail s AND size_mask sz)))"
  by (simp add: current_def is_empty_def Let_def)

lemma enqueue_eq:
  "enqueue sz v s = (if is_full sz s then (Parks Tail (tail s), s, [])
                     else (Returns (), push sz v s, [Head]))"
  by (simp add: enqueue_def is_full_def push_def Let_def)

lemma try_enqueue_eq:
  "try_enqueue sz v s = (if is_full sz s then (False, s, []) else (True, push sz v s, [Head]))"
  by (simp add: try_enqueue_def is_full_def push_def Let_def)

lemma dequeue_eq:
  "dequeue sz s = (if is_empty sz s then (Parks Head (head s), s, [])
                   else (Returns (buff s ! unat (tail s AND size_mask sz)), pop s, [Tail]))"
  by (simp add: dequeue_def is_empty_def pop_def Let_def)

lemma try_dequeue_eq:
  "try_dequeue sz s = (if is_empty sz s then (None, s, [])
                       else (Some (buff s ! unat (tail s AND size_mask sz)), pop s, [Tail]))"
  by (simp add: try_dequeue_def is_empty_def pop_def Let_def)

lemma can_peek_state: "snd (can_peek sz n s) = (s, [])"
  by (simp add: can_peek_def)

lemma try_peek_state: "snd (try_peek sz n s) = (s, [])"
  by (simp add: try_peek_def Let_def)

lemma peek_state: "snd (peek sz n s) = (s, [])"
  by (simp add: peek_def Let_def split: outcome.splits bool.splits)

lemma ring_inv_init:
  assumes "valid_size sz"
  shows "ring_inv sz (RingBase sz d)" and "used (RingBase sz d) = 0"
    and "contents sz (RingBase sz d) = []"
  using size_ge2[OF assms] by (simp_all add: ring_inv_def RingBase_def used_def contents_def)

lemma full_not_empty:
  assumes "valid_size sz" "ring_inv sz s" "is_full sz s"
  shows "\<not> is_empty sz s"
  using assms size_ge2[OF assms(1)] by (simp add: is_full_iff is_empty_iff)

lemma pop_not_full:
  assumes "valid_size sz" "ring_inv sz s" "\<not> is_empty sz s"
  shows "\<not> is_full sz (pop s)"
proof -
  have "used (pop s) = used s - 1" by (rule pop_props(3)[OF assms])
  moreover have "used s < unat sz" using assms(2) by (simp add: ring_inv_def)
  moreover have "used s \<noteq> 0" using assms by (simp add: is_empty_iff)
  ultimately show ?thesis
    by (simp add: is_full_iff[OF assms(1) pop_props(1)[OF assms]])
qed

lemma push_full_iff:
  assumes "valid_size sz" "ring_inv sz s" "\<not> is_full sz s"
  shows "is_full sz (push sz v s) = (Suc (Suc (used s)) = unat sz)"
  by (simp add: is_full_iff[OF assms(1) push_props(1)[OF assms]] push_props(3)[OF assms])

lemma buffer_step_inv:
  assumes "valid_size sz" "ring_inv sz s"
  shows "ring_inv sz (buffer_step sz c s)"
proof (cases c)
  case (Write v)
  then show ?thesis using assms by (simp add: write_buf_eq push_props(1))
next
  case (Overwrite v)
  show ?thesis
  proof (cases "is_full sz s")
    case True
    have ne: "\<not> is_empty sz s" by (rule full_not_empty[OF assms True])
    have "ring_inv sz (push sz v (pop s))"
      by (rule push_props(1)[OF assms(1) pop_props(1)[OF assms ne] pop_not_full[OF assms ne]])
    then show ?thesis using Overwrite True by (simp add: overwrite_eq)
  next
    case False
    then show ?thesis using Overwrite assms by (simp add: overwrite_eq push_props(1))
  qed
next
  case Read
  then show ?thesis using assms by (simp add: read_eq pop_props(1))
qed (use assms in simp_all)

lemma buffer_run_inv:
  "valid_size sz \<Longrightarrow> ring_inv sz s \<Longrightarrow> ring_inv sz (buffer_run sz cs s)"
  by (induction cs arbitrary: s) (simp_all add: buffer_step_inv)

lemma queue_step_inv:
  assumes "valid_size sz" "ring_inv sz s"
  shows "ring_inv sz (queue_step sz c s)"
  using assms
  by (cases c)
     (simp_all add: enqueue_eq try_enqueue_eq dequeue_eq try_dequeue_eq push_props(1) pop_props(1)
        can_peek_state try_peek_state peek_state wake_all_def)

lemma queue_run_inv:
  "valid_size sz \<Longrightarrow> ring_inv sz s \<Longrightarrow> ring_inv sz (queue_run sz cs s)"
  by (induction cs arbitrary: s) (simp_all add: queue_step_inv)

section \<open>Evaluation of concrete runs\<close>

text \<open>The definitions the simplifier unfolds to run the operations on concrete states.\<close>

lemmas concrete_defs = RingBase_def write_buf_def read_def overwrite_def is_full_def is_empty_def
  size_mask_def valid_size_def can_mod_opt_def Let_def contents_def used_def slot_def

section \<open>First in, first out\<close>

lemma fifo_write_read:
  assumes v: "valid_size sz"
  shows "ring_inv sz s \<Longrightarrow> list_all write_or_read cs \<Longrightarrow>
    reads sz cs s @ contents sz (buffer_run sz cs s) = contents sz s @ accepted sz cs s"
proof (induction cs arbitrary: s)
  case Nil
  then show ?case by simp
next
  case (Cons c cs)
  from Cons.prems have rest: "list_all write_or_read cs" by simp
  have inv': "ring_inv sz (buffer_step sz c s)"
    by (rule buffer_step_inv[OF v Cons.prems(1)])
  note IH = Cons.IH[OF inv' rest]
  show ?case
  proof (cases c)
    case (Write x)
    show ?thesis
    proof (cases "is_full sz s")
      case True
      then show ?thesis using IH Write by (simp add: write_buf_eq)
    next
      case False
      have "contents sz (push sz x s) = contents sz s @ [x]"
        by (rule push_props(2)[OF v Cons.prems(1) False])
      then show ?thesis using IH Write False by (simp add: write_buf_eq)
    qed
  next
    case Read
    show ?thesis
    proof (cases "is_empty sz s")
      case True
      then show ?thesis using IH Read by (simp add: read_eq)
    next
      case False
      note p = pop_props[OF v Cons.prems(1) False]
      have "contents sz s = hd (contents sz s) # contents sz (pop s)"
        using p(2) p(4) by simp
      then show ?thesis using IH Read False p(5) by (simp add: read_eq)
    qed
  qed (use Cons.prems in simp_all)
qed

lemma writes_all_accepted:
  "list_all write_or_read cs \<Longrightarrow> no_write_when_full sz cs s \<Longrightarrow>
     accepted sz cs s = written cs \<and> write_flags sz cs s = replicate (length (written cs)) True"
proof (induction cs arbitrary: s)
  case Nil
  then show ?case by simp
next
  case (Cons c cs)
  then show ?case by (cases c) (auto simp: write_buf_eq)
qed

lemma reads_append:
  "reads sz (cs @ ds) s = reads sz cs s @ reads sz ds (buffer_run sz cs s)"
proof (induction cs arbitrary: s)
  case Nil
  then show ?case by simp
next
  case (Cons c cs)
  then show ?case by (cases c) simp_all
qed

lemma read_step:
  assumes v: "valid_size sz" and inv: "ring_inv sz s"
  shows "read sz s = (case contents sz s of [] \<Rightarrow> (None, s) | x # xs \<Rightarrow> (Some x, pop s))"
    and "contents sz (snd (read sz s)) = tl (contents sz s)"
proof -
  show "read sz s = (case contents sz s of [] \<Rightarrow> (None, s) | x # xs \<Rightarrow> (Some x, pop s))"
  proof (cases "is_empty sz s")
    case True
    then have "contents sz s = []"
      by (simp add: is_empty_iff[OF v inv] contents_def)
    then show ?thesis using True by (simp add: read_eq)
  next
    case False
    note p = pop_props[OF v inv False]
    from p(4,5) show ?thesis using False
      by (cases "contents sz s") (simp_all add: read_eq)
  qed
  show "contents sz (snd (read sz s)) = tl (contents sz s)"
  proof (cases "is_empty sz s")
    case True
    then have "contents sz s = []"
      by (simp add: is_empty_iff[OF v inv] contents_def)
    then show ?thesis using True by (simp add: read_eq)
  next
    case False
    then show ?thesis using pop_props(2)[OF v inv False] by (simp add: read_eq)
  qed
qed

lemma reads_drain:
  assumes v: "valid_size sz"
  shows "ring_inv sz s \<Longrightarrow> reads sz (replicate k Read) s = take k (contents sz s)"
proof (induction k arbitrary: s)
  case 0
  then show ?case by simp
next
  case (Suc k)
  have inv': "ring_inv sz (snd (read sz s))"
    using buffer_step_inv[OF v Suc.prems, of Read] by simp
  note r = read_step[OF v Suc.prems]
  note IH = Suc.IH[OF inv']
  show ?case
  proof (cases "contents sz s")
    case Nil
    then show ?thesis using IH r by simp
  next
    case (Cons x xs)
    then show ?thesis using IH r by simp
  qed
qed


text \<open>
  C1. From a freshly constructed overwrite buffer, for every sequence of \<^verbatim>\<open>write\<close> and
  \<^verbatim>\<open>read\<close> calls in which no \<^verbatim>\<open>write\<close> is attempted while the buffer is full: every
  \<^verbatim>\<open>write\<close> succeeds; the values returned by the successful \<^verbatim>\<open>read\<close> calls, followed
  by the elements still unread at the end, are exactly the values passed to the
  \<^verbatim>\<open>write\<close> calls, in the same order; the next \<^verbatim>\<open>read\<close> returns the oldest unread
  element when there is one and an empty result otherwise; and \<open>k\<close> further \<^verbatim>\<open>read\<close> calls
  bring the values returned to the first \<open>n + k\<close> written values, \<open>n\<close> being the number
  returned so far. So the reads return the written values first in, first out, each once,
  and all of them once the buffer is drained.
\<close>

theorem C1_fifo:
  assumes "valid_size sz" and "list_all write_or_read cs"
    and "no_write_when_full sz cs (RingBase sz d)"
  shows "accepted sz cs (RingBase sz d) = written cs \<and>
         reads sz cs (RingBase sz d) @ contents sz (buffer_run sz cs (RingBase sz d)) = written cs \<and>
         fst (read sz (buffer_run sz cs (RingBase sz d)))
           = (case contents sz (buffer_run sz cs (RingBase sz d)) of [] \<Rightarrow> None | x # xs \<Rightarrow> Some x) \<and>
         (\<forall>k. reads sz (cs @ replicate k Read) (RingBase sz d)
                = take (length (reads sz cs (RingBase sz d)) + k) (written cs))"
proof -
  define s where "s = buffer_run sz cs (RingBase sz d)"
  have inv: "ring_inv sz s"
    unfolding s_def by (rule buffer_run_inv[OF assms(1) ring_inv_init(1)[OF assms(1)]])
  have a: "accepted sz cs (RingBase sz d) = written cs"
    using writes_all_accepted[OF assms(2,3)] by simp
  have "reads sz cs (RingBase sz d) @ contents sz s
      = contents sz (RingBase sz d) @ accepted sz cs (RingBase sz d)"
    unfolding s_def
    by (rule fifo_write_read[OF assms(1) ring_inv_init(1)[OF assms(1)] assms(2)])
  then have b: "reads sz cs (RingBase sz d) @ contents sz s = written cs"
    using a by (simp add: ring_inv_init(3)[OF assms(1)])
  have c: "fst (read sz s) = (case contents sz s of [] \<Rightarrow> None | x # xs \<Rightarrow> Some x)"
    by (simp add: read_step(1)[OF assms(1) inv] split: list.split)
  have e: "reads sz (cs @ replicate k Read) (RingBase sz d)
      = take (length (reads sz cs (RingBase sz d)) + k) (written cs)" for k
  proof -
    have "reads sz (cs @ replicate k Read) (RingBase sz d)
        = reads sz cs (RingBase sz d) @ take k (contents sz s)"
      by (simp add: reads_append reads_drain[OF assms(1) inv] s_def[symmetric])
    also have "\<dots> = take (length (reads sz cs (RingBase sz d)) + k)
        (reads sz cs (RingBase sz d) @ contents sz s)"
      by simp
    finally show ?thesis by (simp only: b)
  qed
  show ?thesis unfolding s_def[symmetric] using a b c e by blast
qed

theorem C1_fifo_witness:
  "valid_size 4 \<and> list_all write_or_read [Write 1, Write 2, Read, Write 3 :: int buffer_call] \<and>
   no_write_when_full 4 [Write 1, Write 2, Read, Write 3] (RingBase 4 (0::int)) \<and>
   reads 4 ([Write 1, Write 2, Read, Write 3] @ replicate 2 Read) (RingBase 4 (0::int)) = [1, 2, 3] \<and>
   written [Write 1, Write 2, Read, Write 3 :: int buffer_call] = [1, 2, 3]"
proof -
  have h1: "valid_size 4" by (simp add: valid_size_def can_mod_opt_def)
  have h2: "list_all write_or_read [Write 1, Write 2, Read, Write 3 :: int buffer_call]"
    by simp
  have h3: "no_write_when_full 4 [Write 1, Write 2, Read, Write 3] (RingBase 4 (0::int))"
    by (simp add: concrete_defs)
  have l: "length (reads 4 [Write 1, Write 2, Read, Write 3] (RingBase 4 (0::int))) = 1"
    by (simp add: concrete_defs)
  note t = C1_fifo[OF h1 h2 h3, THEN conjunct2, THEN conjunct2, THEN conjunct2, rule_format, of 2]
  have "reads 4 ([Write 1, Write 2, Read, Write 3] @ replicate 2 Read) (RingBase 4 (0::int)) = [1, 2, 3]"
    unfolding t l by simp
  then show ?thesis using h1 h2 h3 by simp
qed

section \<open>Overwriting a full buffer\<close>

lemma hd_tl_append: "1 < length xs \<Longrightarrow> hd (tl xs @ ys) = xs ! 1"
  by (cases xs; cases "tl xs") auto

lemma length_contents: "length (contents sz s) = used s"
  by (simp add: contents_def)

lemma reads_subseq_strong:
  assumes v: "valid_size sz"
  shows "ring_inv sz s \<Longrightarrow>
    subseq (reads sz cs s @ contents sz (buffer_run sz cs s)) (contents sz s @ accepted sz cs s)"
proof (induction cs arbitrary: s)
  case Nil
  then show ?case by simp
next
  case (Cons c cs)
  have inv': "ring_inv sz (buffer_step sz c s)"
    by (rule buffer_step_inv[OF v Cons.prems])
  note IH = Cons.IH[OF inv']
  show ?case
  proof (cases c)
    case (Write x)
    show ?thesis
    proof (cases "is_full sz s")
      case True
      then show ?thesis using IH Write by (simp add: write_buf_eq)
    next
      case False
      have "contents sz (push sz x s) = contents sz s @ [x]"
        by (rule push_props(2)[OF v Cons.prems False])
      then show ?thesis using IH Write False by (simp add: write_buf_eq)
    qed
  next
    case (Overwrite x)
    show ?thesis
    proof (cases "is_full sz s")
      case True
      have ne: "\<not> is_empty sz s" by (rule full_not_empty[OF v Cons.prems True])
      note p = pop_props[OF v Cons.prems ne]
      have "contents sz (push sz x (pop s)) = contents sz (pop s) @ [x]"
        by (rule push_props(2)[OF v p(1) pop_not_full[OF v Cons.prems ne]])
      then have c': "contents sz (buffer_step sz c s) = tl (contents sz s) @ [x]"
        using Overwrite True p(2) by (simp add: overwrite_eq)
      have "subseq (reads sz cs (buffer_step sz c s) @ contents sz (buffer_run sz cs (buffer_step sz c s)))
              (tl (contents sz s) @ x # accepted sz cs (buffer_step sz c s))"
        using IH c' by simp
      then have "subseq (reads sz cs (buffer_step sz c s) @ contents sz (buffer_run sz cs (buffer_step sz c s)))
              (hd (contents sz s) # tl (contents sz s) @ x # accepted sz cs (buffer_step sz c s))"
        by (rule list_emb_Cons)
      then show ?thesis using Overwrite p(4) by simp (metis append_Cons list.collapse)
    next
      case False
      have "contents sz (push sz x s) = contents sz s @ [x]"
        by (rule push_props(2)[OF v Cons.prems False])
      then show ?thesis using IH Overwrite False by (simp add: overwrite_eq)
    qed
  next
    case Read
    show ?thesis
    proof (cases "is_empty sz s")
      case True
      then show ?thesis using IH Read by (simp add: read_eq)
    next
      case False
      note p = pop_props[OF v Cons.prems False]
      have "contents sz s = hd (contents sz s) # contents sz (pop s)"
        using p(2) p(4) by simp
      then show ?thesis using IH Read False p(5) by (simp add: read_eq) (metis append_Cons subseq_Cons2)
    qed
  qed (use IH in simp_all)
qed

lemma reads_subseq:
  assumes "valid_size sz" "ring_inv sz s"
  shows "subseq (reads sz cs s) (contents sz s @ accepted sz cs s)"
proof -
  have "subseq (reads sz cs s) (reads sz cs s @ contents sz (buffer_run sz cs s))"
    by (rule prefix_imp_subseq) simp
  then show ?thesis
    using reads_subseq_strong[OF assms] by (rule subseq_order.trans)
qed

lemma overwrite_full_props:
  assumes v: "valid_size sz" and inv: "ring_inv sz s" and full: "is_full sz s"
  shows "overwrite sz x s = push sz x (pop s)"
    and "ring_inv sz (overwrite sz x s)"
    and "contents sz (overwrite sz x s) = tl (contents sz s) @ [x]"
    and "is_full sz (overwrite sz x s)"
proof -
  have ne: "\<not> is_empty sz s" by (rule full_not_empty[OF v inv full])
  note p = pop_props[OF v inv ne]
  have nf: "\<not> is_full sz (pop s)" by (rule pop_not_full[OF v inv ne])
  note q = push_props[OF v p(1) nf]
  show eq: "overwrite sz x s = push sz x (pop s)" using full by (simp add: overwrite_eq)
  show "ring_inv sz (overwrite sz x s)" using q(1) by (simp add: eq)
  show "contents sz (overwrite sz x s) = tl (contents sz s) @ [x]"
    using q(2)[of x] p(2) by (simp add: eq)
  have "used s \<noteq> 0" using ne by (simp add: is_empty_iff[OF v inv])
  then have "used (push sz x (pop s)) = used s" using q(3)[of x] p(3) by simp
  then show "is_full sz (overwrite sz x s)"
    using full by (simp add: eq is_full_iff[OF v q(1)] is_full_iff[OF v inv])
qed

lemma read_nonempty:
  assumes v: "valid_size sz" and inv: "ring_inv sz s" and ne: "\<not> is_empty sz s"
  shows "read sz s = (Some (hd (contents sz s)), pop s)"
  using pop_props(5)[OF v inv ne] ne by (simp add: read_eq)

lemma size_gt2:
  assumes "valid_size sz" "2 < sz"
  shows "2 < unat sz"
proof -
  from assms(2) have "unat (2::size_t) < unat sz" unfolding word_less_nat_alt .
  then show ?thesis by simp
qed

lemma size_eq2:
  assumes "valid_size sz" "\<not> 2 < sz"
  shows "unat sz = 2"
proof -
  from assms(2) have "\<not> unat (2::size_t) < unat sz" unfolding word_less_nat_alt .
  then show ?thesis using size_ge2[OF assms(1)] by simp
qed

text \<open>
  C2 (as amended). For every full state \<open>s\<close> of the overwrite buffer reached from the
  constructor, \<^verbatim>\<open>overwrite(x)\<close> advances the read cursor by one, stores \<open>x\<close> at the
  write cursor's slot and advances the write cursor. The unread elements are then those of
  \<open>s\<close> without the oldest, followed by \<open>x\<close>; the buffer is full again; whatever calls
  follow, the values their reads return are drawn, in order, from these elements and the
  values stored later, so the discarded element is not returned. The next \<^verbatim>\<open>read\<close>
  returns the element that was second-oldest in \<open>s\<close> when the capacity is greater than 2;
  with capacity 2 a full buffer holds one element and the next \<^verbatim>\<open>read\<close> returns \<open>x\<close>.
\<close>

theorem C2_overwrite_full:
  assumes v: "valid_size sz" and full: "is_full sz (buffer_run sz cs (RingBase sz d))"
  shows "let s = buffer_run sz cs (RingBase sz d); s' = overwrite sz x s in
     s' = s\<lparr>tail := tail s + 1,
             buff := (buff s)[unat (head s AND size_mask sz) := x],
             head := head s + 1\<rparr> \<and>
     contents sz s' = tl (contents sz s) @ [x] \<and>
     is_full sz s' \<and>
     fst (read sz s') = (if 2 < sz then second_oldest sz s else Some x) \<and>
     (\<forall>later. subseq (reads sz later s') (tl (contents sz s) @ x # accepted sz later s'))"
proof -
  define s where "s = buffer_run sz cs (RingBase sz d)"
  define s' where "s' = overwrite sz x s"
  have inv: "ring_inv sz s"
    unfolding s_def by (rule buffer_run_inv[OF v ring_inv_init(1)[OF v]])
  from full have full: "is_full sz s" by (simp add: s_def)
  note o = overwrite_full_props[OF v inv full, of x]
  have a: "s' = s\<lparr>tail := tail s + 1,
             buff := (buff s)[unat (head s AND size_mask sz) := x],
             head := head s + 1\<rparr>"
    by (simp add: s'_def o(1) push_def pop_def)
  have b: "contents sz s' = tl (contents sz s) @ [x]" by (simp add: s'_def o(3))
  have c: "is_full sz s'" by (simp add: s'_def o(4))
  have inv': "ring_inv sz s'" by (simp add: s'_def o(2))
  have ne': "\<not> is_empty sz s'" by (rule full_not_empty[OF v inv' c])
  have len: "Suc (length (contents sz s)) = unat sz"
    using full by (simp add: length_contents is_full_iff[OF v inv])
  have r: "fst (read sz s') = Some (hd (tl (contents sz s) @ [x]))"
    by (simp add: read_nonempty[OF v inv' ne'] b)
  have d: "fst (read sz s') = (if 2 < sz then second_oldest sz s else Some x)"
  proof (cases "2 < sz")
    case True
    then have "2 < unat sz" by (rule size_gt2[OF v])
    with len have l2: "1 < length (contents sz s)" by simp
    then have "hd (tl (contents sz s) @ [x]) = contents sz s ! 1"
      by (rule hd_tl_append)
    then show ?thesis using True l2 r by (simp add: second_oldest_def)
  next
    case False
    then have "unat sz = 2" by (rule size_eq2[OF v])
    with len have "length (contents sz s) = 1" by simp
    then have "tl (contents sz s) = []" by (cases "contents sz s") auto
    then show ?thesis using False r by simp
  qed
  have e: "subseq (reads sz later s') (tl (contents sz s) @ x # accepted sz later s')" for later
    using reads_subseq[OF v inv', of later] by (simp add: b)
  show ?thesis
    unfolding Let_def s_def[symmetric] s'_def[symmetric] using a b c d e by blast
qed

theorem C2_overwrite_full_witness:
  "valid_size 4 \<and>
   is_full 4 (buffer_run 4 [Write 1, Write 2, Write 3] (RingBase 4 (0::int))) \<and>
   contents 4 (overwrite 4 5 (buffer_run 4 [Write 1, Write 2, Write 3] (RingBase 4 (0::int)))) = [2, 3, 5] \<and>
   is_full 4 (overwrite 4 5 (buffer_run 4 [Write 1, Write 2, Write 3] (RingBase 4 (0::int)))) \<and>
   fst (read 4 (overwrite 4 5 (buffer_run 4 [Write 1, Write 2, Write 3] (RingBase 4 (0::int))))) = Some 2"
proof -
  have h1: "valid_size 4" by (simp add: concrete_defs)
  have h2: "is_full 4 (buffer_run 4 [Write 1, Write 2, Write 3] (RingBase 4 (0::int)))"
    by (simp add: concrete_defs)
  have c: "contents 4 (buffer_run 4 [Write 1, Write 2, Write 3] (RingBase 4 (0::int))) = [1, 2, 3]"
    by (simp add: concrete_defs upt_conv_Cons)
  note t = C2_overwrite_full[OF h1 h2, of 5, unfolded Let_def]
  note t2 = t[THEN conjunct2, THEN conjunct1]
  note t3 = t[THEN conjunct2, THEN conjunct2, THEN conjunct1]
  note t4 = t[THEN conjunct2, THEN conjunct2, THEN conjunct2, THEN conjunct1]
  show ?thesis
    using h1 h2 t2 t3 t4 c by (simp add: second_oldest_def)
qed

text \<open>
  C2 as stated fails at capacity 2: after \<^verbatim>\<open>write(1)\<close> the buffer is full and holds
  the single element 1, there is no second-oldest element, and after \<^verbatim>\<open>overwrite(5)\<close>
  the next \<^verbatim>\<open>read\<close> returns 5.
\<close>

theorem C2_counterexample:
  "valid_size 2 \<and>
   is_full 2 (buffer_run 2 [Write 1] (RingBase 2 (0::int))) \<and>
   contents 2 (buffer_run 2 [Write 1] (RingBase 2 (0::int))) = [1] \<and>
   second_oldest 2 (buffer_run 2 [Write 1] (RingBase 2 (0::int))) = None \<and>
   fst (read 2 (overwrite 2 5 (buffer_run 2 [Write 1] (RingBase 2 (0::int))))) = Some 5 \<and>
   fst (read 2 (overwrite 2 5 (buffer_run 2 [Write 1] (RingBase 2 (0::int)))))
     \<noteq> second_oldest 2 (buffer_run 2 [Write 1] (RingBase 2 (0::int)))"
  by (simp add: concrete_defs second_oldest_def upt_conv_Cons)

section \<open>Filling a fresh buffer\<close>

lemma writes_run:
  assumes v: "valid_size sz"
  shows "ring_inv sz s \<Longrightarrow> used s + length vs < unat sz \<Longrightarrow>
    write_flags sz (map Write vs) s = replicate (length vs) True \<and>
    contents sz (buffer_run sz (map Write vs) s) = contents sz s @ vs \<and>
    used (buffer_run sz (map Write vs) s) = used s + length vs \<and>
    ring_inv sz (buffer_run sz (map Write vs) s)"
proof (induction vs arbitrary: s)
  case Nil
  then show ?case by simp
next
  case (Cons x xs)
  have nf: "\<not> is_full sz s"
    using Cons.prems(2) by (simp add: is_full_iff[OF v Cons.prems(1)])
  note p = push_props[OF v Cons.prems(1) nf, of x]
  have "used (push sz x s) + length xs < unat sz" using Cons.prems(2) p(3) by simp
  from Cons.IH[OF p(1) this] show ?case using nf p(2,3) by (simp add: write_buf_eq)
qed

text \<open>
  C3. From a freshly constructed overwrite buffer of capacity \<open>N\<close>, \<open>N - 1\<close> \<^verbatim>\<open>write\<close>
  calls each return \<^verbatim>\<open>true\<close>; the buffer then holds the written values and
  \<^verbatim>\<open>is_full()\<close> is true; one more \<^verbatim>\<open>write\<close> returns \<^verbatim>\<open>false\<close> and changes nothing, while
  an \<^verbatim>\<open>overwrite\<close> in that state stores its value and drops the oldest element.
\<close>

theorem C3_fill_to_capacity:
  assumes v: "valid_size sz" and len: "Suc (length vs) = unat sz"
  shows "let s = buffer_run sz (map Write vs) (RingBase sz d) in
     write_flags sz (map Write vs) (RingBase sz d) = replicate (length vs) True \<and>
     contents sz s = vs \<and>
     is_full sz s \<and>
     write_buf sz w s = (False, s) \<and>
     contents sz (overwrite sz w s) = tl vs @ [w]"
proof -
  define s where "s = buffer_run sz (map Write vs) (RingBase sz d)"
  note i = ring_inv_init[OF v, of d]
  have "used (RingBase sz d) + length vs < unat sz" using len i(2) by simp
  note r = writes_run[OF v i(1) this, folded s_def]
  have c: "contents sz s = vs" using r i(3) by simp
  have inv: "ring_inv sz s" using r by simp
  have "used s = length vs" using r i(2) by simp
  then have full: "is_full sz s" using len by (simp add: is_full_iff[OF v inv])
  have w: "write_buf sz w s = (False, s)" using full by (simp add: write_buf_eq)
  have o: "contents sz (overwrite sz w s) = tl vs @ [w]"
    using overwrite_full_props(3)[OF v inv full, of w] c by simp
  show ?thesis
    unfolding Let_def s_def[symmetric] using r c full w o by simp
qed

theorem C3_fill_to_capacity_witness:
  "valid_size 4 \<and> Suc (length [1, 2, 3 :: int]) = unat (4 :: size_t) \<and>
   write_flags 4 (map Write [1, 2, 3 :: int]) (RingBase 4 0) = [True, True, True] \<and>
   is_full 4 (buffer_run 4 (map Write [1, 2, 3 :: int]) (RingBase 4 0)) \<and>
   fst (write_buf 4 5 (buffer_run 4 (map Write [1, 2, 3 :: int]) (RingBase 4 0))) = False \<and>
   contents 4 (overwrite 4 5 (buffer_run 4 (map Write [1, 2, 3 :: int]) (RingBase 4 0))) = [2, 3, 5]"
proof -
  have h1: "valid_size 4" by (simp add: concrete_defs)
  have h2: "Suc (length [1, 2, 3 :: int]) = unat (4 :: size_t)" by simp
  note t = C3_fill_to_capacity[OF h1 h2, of 0 5, unfolded Let_def]
  show ?thesis using h1 h2 t by (simp add: numeral_3_eq_3)
qed

section \<open>Failing without effect; read and try_dequeue\<close>

lemma max_distance_empty: "is_empty sz s \<Longrightarrow> max_distance sz s = 0"
  by (simp add: is_empty_def max_distance_def Let_def)

text \<open>
  C4. The non-blocking operations fail without effect. In every full state \<^verbatim>\<open>write\<close> and
  \<^verbatim>\<open>try_enqueue\<close> return \<^verbatim>\<open>false\<close> and leave the cursors and every slot as they were; in
  every empty state \<^verbatim>\<open>read\<close>, \<^verbatim>\<open>try_dequeue\<close>, \<^verbatim>\<open>try_current\<close> and \<^verbatim>\<open>try_peek\<close>
  (with any offset) return an empty result and leave the cursors and every slot as they
  were. No cursor is notified.
\<close>

theorem C4_fail_atomically:
  "(is_full sz s \<longrightarrow>
      write_buf sz v s = (False, s) \<and> try_enqueue sz v s = (False, s, [])) \<and>
   (is_empty sz s \<longrightarrow>
      read sz s = (None, s) \<and> try_dequeue sz s = (None, s, []) \<and>
      try_current sz s = None \<and> try_peek sz amnt s = (Returns None, s, []))"
  by (simp add: write_buf_eq try_enqueue_eq read_eq try_dequeue_eq try_current_eq
      try_peek_def max_distance_empty)

theorem C4_fail_atomically_witness:
  "is_full 4 (queue_run 4 [Enqueue 1, Enqueue 2, Enqueue 3] (RingBase 4 (0::int))) \<and>
   fst (write_buf 4 5 (queue_run 4 [Enqueue 1, Enqueue 2, Enqueue 3] (RingBase 4 (0::int)))) = False \<and>
   try_enqueue 4 5 (queue_run 4 [Enqueue 1, Enqueue 2, Enqueue 3] (RingBase 4 (0::int)))
     = (False, queue_run 4 [Enqueue 1, Enqueue 2, Enqueue 3] (RingBase 4 (0::int)), []) \<and>
   is_empty 4 (RingBase 4 (0::int)) \<and>
   read 4 (RingBase 4 (0::int)) = (None, RingBase 4 0) \<and>
   try_dequeue 4 (RingBase 4 (0::int)) = (None, RingBase 4 0, []) \<and>
   try_current 4 (RingBase 4 (0::int)) = None \<and>
   try_peek 4 2 (RingBase 4 (0::int)) = (Returns None, RingBase 4 0, [])"
proof -
  have h1: "is_full 4 (queue_run 4 [Enqueue 1, Enqueue 2, Enqueue 3] (RingBase 4 (0::int)))"
    by (simp add: concrete_defs enqueue_def)
  have h2: "is_empty 4 (RingBase 4 (0::int))" by (simp add: concrete_defs)
  note f = C4_fail_atomically[of 4 "queue_run 4 [Enqueue 1, Enqueue 2, Enqueue 3] (RingBase 4 (0::int))" 5,
      THEN conjunct1, rule_format, OF h1]
  note e = C4_fail_atomically[of 4 "RingBase 4 (0::int)" _ 2, THEN conjunct2, rule_format, OF h2]
  show ?thesis using h1 h2 f e by simp
qed

text \<open>
  C10. On the same storage and cursors, \<^verbatim>\<open>read\<close> of the buffer and \<^verbatim>\<open>try_dequeue\<close> of
  the queue return the same result and leave the same state: an empty result and the state
  unchanged when the masked cursors are equal, otherwise the value at the masked read
  cursor with the read cursor advanced by one. \<^verbatim>\<open>try_dequeue\<close> in addition notifies the
  read cursor when it has returned a value.
\<close>

theorem C10_read_try_dequeue:
  "try_dequeue sz s = (fst (read sz s), snd (read sz s), if is_empty sz s then [] else [Tail]) \<and>
   read sz s = (if is_empty sz s then (None, s)
                else (Some (buff s ! unat (tail s AND size_mask sz)), s\<lparr>tail := tail s + 1\<rparr>))"
  by (simp add: read_eq try_dequeue_eq pop_def)

theorem C10_read_try_dequeue_witness:
  "try_dequeue 4 (buffer_run 4 [Write 7] (RingBase 4 (0::int)))
     = (Some 7, snd (read 4 (buffer_run 4 [Write 7] (RingBase 4 (0::int)))), [Tail]) \<and>
   fst (read 4 (buffer_run 4 [Write 7] (RingBase 4 (0::int)))) = Some 7"
proof -
  have r: "fst (read 4 (buffer_run 4 [Write 7] (RingBase 4 (0::int)))) = Some 7"
    by (simp add: concrete_defs)
  have e: "\<not> is_empty 4 (buffer_run 4 [Write 7] (RingBase 4 (0::int)))"
    by (simp add: concrete_defs)
  show ?thesis
    using C10_read_try_dequeue[of 4 "buffer_run 4 [Write 7] (RingBase 4 (0::int))", THEN conjunct1] r e
    by simp
qed

section \<open>Peeking\<close>

lemma unat_max_distance:
  assumes v: "valid_size sz"
  shows "unat (max_distance sz s) = available_spec sz s"
proof -
  define h where "h = head s AND size_mask sz"
  define t where "t = tail s AND size_mask sz"
  have tl: "unat t < unat sz" using slot_less[OF v, of "tail s"] by (simp add: slot_def t_def)
  show ?thesis
  proof (cases "t \<le> h")
    case True
    then have "unat (h - t) = unat h - unat t" by (rule unat_sub)
    moreover from True have "unat t \<le> unat h" by (simp only: word_le_nat_alt)
    ultimately show ?thesis
      using True by (simp add: max_distance_def available_spec_def Let_def
          size_mask_def[symmetric] h_def[symmetric] t_def[symmetric])
  next
    case False
    then have lt: "unat h < unat t" by (simp add: word_le_nat_alt)
    have "t \<le> sz" using tl by (simp add: word_le_nat_alt)
    then have a: "unat (sz - t) = unat sz - unat t" by (rule unat_sub)
    have "unat sz < 2 ^ LENGTH(64)" by (rule unsigned_less)
    with lt tl a have "unat (sz - t) + unat h < 2 ^ LENGTH(64)" by simp
    then have "unat ((sz - t) + h) = unat (sz - t) + unat h"
      by (simp only: unat_add_lem)
    with a have "unat ((sz - t) + h) = (unat sz - unat t) + unat h" by simp
    then show ?thesis
      using False lt by (simp add: max_distance_def available_spec_def Let_def
          size_mask_def[symmetric] h_def[symmetric] t_def[symmetric])
  qed
qed

lemma available_spec_mod:
  assumes v: "valid_size sz"
  shows "available_spec sz s =
     (if unat (tail s) mod unat sz \<le> unat (head s) mod unat sz
      then unat (head s) mod unat sz - unat (tail s) mod unat sz
      else (unat sz - unat (tail s) mod unat sz) + unat (head s) mod unat sz)"
  using slot_mod[OF v, of "head s"] slot_mod[OF v, of "tail s"]
  by (simp add: available_spec_def Let_def size_mask_def[symmetric] slot_def)

lemma available_spec_less:
  assumes v: "valid_size sz"
  shows "available_spec sz s < unat sz"
proof -
  define h where "h = unat (head s) mod unat sz"
  define t where "t = unat (tail s) mod unat sz"
  have "0 < unat sz" using size_ge2[OF v] by simp
  then have "h < unat sz" "t < unat sz" by (simp_all add: h_def t_def)
  then have "(if t \<le> h then h - t else (unat sz - t) + h) < unat sz" by auto
  then show ?thesis unfolding available_spec_mod[OF v] h_def t_def .
qed

lemma available_spec_used:
  assumes v: "valid_size sz" and inv: "ring_inv sz s"
  shows "available_spec sz s = used s"
proof -
  define N where "N = unat sz"
  define r where "r = unat (tail s) mod N"
  have u: "used s < N" using inv by (simp add: ring_inv_def N_def)
  have N0: "0 < N" using size_ge2[OF v] by (simp add: N_def)
  have r: "r < N" using N0 by (simp add: r_def)
  have "unat (head s) mod N = (unat (tail s) + used s) mod N"
    using slot_head[OF v, of s] slot_mod[OF v, of "head s"] by (simp add: N_def)
  also have "\<dots> = (r + used s) mod N" by (simp add: r_def mod_add_left_eq)
  finally have h: "unat (head s) mod N = (r + used s) mod N" .
  show ?thesis
  proof (cases "r + used s < N")
    case True
    then have "unat (head s) mod N = r + used s" using h by simp
    then show ?thesis
      by (simp add: available_spec_mod[OF v] N_def[symmetric] r_def[symmetric])
  next
    case False
    then have "(r + used s) mod N = r + used s - N"
      using u r by (simp add: mod_if)
    then have "unat (head s) mod N = r + used s - N" using h by simp
    then show ?thesis
      using False u r
      by (simp add: available_spec_mod[OF v] N_def[symmetric] r_def[symmetric])
  qed
qed

lemma queue_state_inv:
  "valid_size sz \<Longrightarrow> ring_inv sz (queue_run sz cs (RingBase sz d))"
  by (rule queue_run_inv[OF _ ring_inv_init(1)])

text \<open>
  C5. In every state of the queue reached from the constructor, and for every offset below
  the capacity, \<^verbatim>\<open>can_peek(amnt)\<close> returns whether \<open>amnt + 1\<close> or more elements are
  available, the available count being the one the specification gives from the masked
  cursors; that count is the number of unread elements. The state is unchanged.
\<close>

theorem C5_can_peek:
  assumes v: "valid_size sz" and a: "amnt < sz"
  shows "let s = queue_run sz cs (RingBase sz d) in
     can_peek sz amnt s = (Returns (unat amnt + 1 \<le> available_spec sz s), s, []) \<and>
     available_spec sz s = length (contents sz s)"
proof -
  define s where "s = queue_run sz cs (RingBase sz d)"
  have inv: "ring_inv sz s" unfolding s_def by (rule queue_state_inv[OF v])
  have "(amnt < max_distance sz s) = (unat amnt < available_spec sz s)"
    by (simp add: word_less_nat_alt unat_max_distance[OF v])
  then have "can_peek sz amnt s = (Returns (unat amnt + 1 \<le> available_spec sz s), s, [])"
    using a by (simp add: can_peek_def Suc_le_eq)
  moreover have "available_spec sz s = length (contents sz s)"
    by (simp add: available_spec_used[OF v inv] length_contents)
  ultimately show ?thesis unfolding Let_def s_def[symmetric] by simp
qed

theorem C5_can_peek_witness:
  "valid_size 4 \<and> (2 :: size_t) < 4 \<and>
   can_peek 4 2 (queue_run 4 [Enqueue 1, Enqueue 2, Enqueue 3] (RingBase 4 (0::int)))
     = (Returns True, queue_run 4 [Enqueue 1, Enqueue 2, Enqueue 3] (RingBase 4 (0::int)), []) \<and>
   available_spec 4 (queue_run 4 [Enqueue 1, Enqueue 2, Enqueue 3] (RingBase 4 (0::int))) = 3 \<and>
   fst (can_peek 4 3 (queue_run 4 [Enqueue 1, Enqueue 2, Enqueue 3] (RingBase 4 (0::int))))
     = Returns False"
proof -
  have h1: "valid_size 4" by (simp add: concrete_defs)
  have h2: "(2 :: size_t) < 4" by simp
  have h3: "(3 :: size_t) < 4" by simp
  have av: "available_spec 4 (queue_run 4 [Enqueue 1, Enqueue 2, Enqueue 3] (RingBase 4 (0::int))) = 3"
    by (simp add: concrete_defs enqueue_def available_spec_def)
  note t2 = C5_can_peek[OF h1 h2, of "[Enqueue 1, Enqueue 2, Enqueue 3]" "0::int", unfolded Let_def,
      THEN conjunct1]
  note t3 = C5_can_peek[OF h1 h3, of "[Enqueue 1, Enqueue 2, Enqueue 3]" "0::int", unfolded Let_def,
      THEN conjunct1]
  show ?thesis using h1 h2 av t2 t3 by simp
qed

lemma slot_masked_add:
  assumes v: "valid_size sz"
  shows "unat (((c AND size_mask sz) + n) AND size_mask sz) = slot sz (c + of_nat (unat n))"
proof -
  have "unat (((c AND size_mask sz) + n) AND size_mask sz)
      = slot sz ((c AND size_mask sz) + of_nat (unat n))"
    by (simp add: slot_def)
  also have "\<dots> = (unat (c AND size_mask sz) + unat n) mod unat sz"
    by (rule slot_add[OF v])
  also have "\<dots> = (unat c mod unat sz + unat n) mod unat sz"
    using slot_mod[OF v, of c] by (simp add: slot_def)
  also have "\<dots> = (unat c + unat n) mod unat sz" by (rule mod_add_left_eq)
  also have "\<dots> = slot sz (c + of_nat (unat n))" by (rule slot_add[OF v, symmetric])
  finally show ?thesis .
qed

lemma try_peek_value:
  assumes v: "valid_size sz" and inv: "ring_inv sz s"
  shows "try_peek sz amnt s =
     (Returns (if unat amnt < length (contents sz s) then Some (contents sz s ! unat amnt)
               else None), s, [])"
proof (cases "amnt \<ge> max_distance sz s")
  case True
  then have "\<not> unat amnt < used s"
    by (simp add: word_le_nat_alt unat_max_distance[OF v] available_spec_used[OF v inv])
  then show ?thesis using True by (simp add: try_peek_def length_contents)
next
  case False
  then have lt: "unat amnt < used s"
    by (simp add: word_le_nat_alt unat_max_distance[OF v] available_spec_used[OF v inv])
  moreover have "used s < unat sz" using inv by (simp add: ring_inv_def)
  ultimately have a: "amnt < sz" by (simp add: word_less_nat_alt)
  have b: "((tail s AND size_mask sz) + amnt) AND size_mask sz < sz"
    using slot_less[OF v, of "(tail s AND size_mask sz) + amnt"]
    by (simp add: word_less_nat_alt slot_def)
  have "buff s ! unat (((tail s AND size_mask sz) + amnt) AND size_mask sz)
      = contents sz s ! unat amnt"
    using lt by (simp add: slot_masked_add[OF v] contents_def)
  then show ?thesis using False a b lt by (simp add: try_peek_def Let_def length_contents)
qed

text \<open>
  C6. In every state of the queue reached from the constructor, and for every offset,
  \<^verbatim>\<open>try_peek(amnt)\<close> returns the unread element \<open>amnt\<close> positions ahead of the read
  cursor when there are more than \<open>amnt\<close> unread elements, and an empty result otherwise;
  neither assertion of \<^verbatim>\<open>try_peek\<close> fails, and the state (cursors and storage) is unchanged.
  With offset 0 it returns what \<^verbatim>\<open>try_dequeue\<close> would return next.
\<close>

theorem C6_try_peek:
  assumes v: "valid_size sz"
  shows "let s = queue_run sz cs (RingBase sz d) in
     try_peek sz amnt s =
       (Returns (if unat amnt < length (contents sz s) then Some (contents sz s ! unat amnt)
                 else None), s, []) \<and>
     fst (try_peek sz 0 s) = Returns (fst (try_dequeue sz s))"
proof -
  define s where "s = queue_run sz cs (RingBase sz d)"
  have inv: "ring_inv sz s" unfolding s_def by (rule queue_state_inv[OF v])
  have a: "try_peek sz amnt s =
       (Returns (if unat amnt < length (contents sz s) then Some (contents sz s ! unat amnt)
                 else None), s, [])"
    by (rule try_peek_value[OF v inv])
  have b: "fst (try_peek sz 0 s) = Returns (fst (try_dequeue sz s))"
  proof (cases "is_empty sz s")
    case True
    then show ?thesis
      by (simp add: try_peek_value[OF v inv] try_dequeue_eq length_contents
          is_empty_iff[OF v inv])
  next
    case False
    note p = pop_props[OF v inv False]
    from p(4) have "contents sz s ! 0 = hd (contents sz s)" by (simp add: hd_conv_nth)
    then show ?thesis
      using False p(4,5) by (simp add: try_peek_value[OF v inv] try_dequeue_eq)
  qed
  show ?thesis unfolding Let_def s_def[symmetric] using a b by simp
qed

theorem C6_try_peek_witness:
  "valid_size 4 \<and>
   try_peek 4 1 (queue_run 4 [Enqueue 1, Enqueue 2, Enqueue 3, Dequeue, Dequeue, Enqueue 4] (RingBase 4 (0::int)))
     = (Returns (Some 4),
        queue_run 4 [Enqueue 1, Enqueue 2, Enqueue 3, Dequeue, Dequeue, Enqueue 4] (RingBase 4 (0::int)), []) \<and>
   fst (try_peek 4 2 (queue_run 4 [Enqueue 1, Enqueue 2, Enqueue 3, Dequeue, Dequeue, Enqueue 4] (RingBase 4 (0::int))))
     = Returns None"
proof -
  define s where
    "s = queue_run 4 [Enqueue 1, Enqueue 2, Enqueue 3, Dequeue, Dequeue, Enqueue 4] (RingBase 4 (0::int))"
  have h1: "valid_size 4" by (simp add: concrete_defs)
  have c: "contents 4 s = [3, 4]"
    unfolding s_def by (simp add: concrete_defs enqueue_def dequeue_def upt_conv_Cons)
  note t1 = C6_try_peek[OF h1, of "[Enqueue 1, Enqueue 2, Enqueue 3, Dequeue, Dequeue, Enqueue 4]" "0::int" 1,
      unfolded Let_def, THEN conjunct1, folded s_def]
  note t2 = C6_try_peek[OF h1, of "[Enqueue 1, Enqueue 2, Enqueue 3, Dequeue, Dequeue, Enqueue 4]" "0::int" 2,
      unfolded Let_def, THEN conjunct1, folded s_def]
  show ?thesis unfolding s_def[symmetric] using h1 t1 t2 by (simp add: c)
qed

section \<open>The cursor invariant\<close>

lemma buffer_step_cursors:
  "(head (buffer_step sz c s) = head s \<or> head (buffer_step sz c s) = head s + 1) \<and>
   (tail (buffer_step sz c s) = tail s \<or> tail (buffer_step sz c s) = tail s + 1)"
  by (cases c) (simp_all add: write_buf_eq overwrite_eq read_eq push_def pop_def)

lemma queue_step_cursors:
  "(head (queue_step sz c s) = head s \<or> head (queue_step sz c s) = head s + 1) \<and>
   (tail (queue_step sz c s) = tail s \<or> tail (queue_step sz c s) = tail s + 1)"
  by (cases c)
     (simp_all add: enqueue_eq try_enqueue_eq dequeue_eq try_dequeue_eq push_def pop_def
        can_peek_state try_peek_state peek_state wake_all_def)

lemma ring_inv_diff: "ring_inv sz s \<Longrightarrow> unat (head s - tail s) \<le> unat sz - 1"
  unfolding ring_inv_def used_def by arith

text \<open>
  C7. Both cursors are zero at construction. In every state reached from the constructor
  by calls of the buffer (\<^verbatim>\<open>write\<close>, \<^verbatim>\<open>overwrite\<close>, \<^verbatim>\<open>read\<close>, \<^verbatim>\<open>try_current\<close>,
  \<^verbatim>\<open>current\<close>) or of the queue (\<^verbatim>\<open>enqueue\<close>, \<^verbatim>\<open>try_enqueue\<close>, \<^verbatim>\<open>dequeue\<close>,
  \<^verbatim>\<open>try_dequeue\<close>, \<^verbatim>\<open>try_current\<close>, \<^verbatim>\<open>current\<close>, \<^verbatim>\<open>can_peek\<close>, \<^verbatim>\<open>try_peek\<close>,
  \<^verbatim>\<open>peek\<close>, \<^verbatim>\<open>wake_all\<close>), the unsigned difference of write cursor and read cursor is
  at most \<open>N - 1\<close>, it is so again after any further call, and that call leaves each
  cursor as it was or increments it by one (an increment of \<^verbatim>\<open>size_t\<close>).
\<close>

theorem C7_cursor_invariant:
  assumes v: "valid_size sz"
  shows "head (RingBase sz d) = 0 \<and> tail (RingBase sz d) = 0 \<and>
    (let s = buffer_run sz cs (RingBase sz d); s' = buffer_step sz c s in
       unat (head s - tail s) \<le> unat sz - 1 \<and> unat (head s' - tail s') \<le> unat sz - 1 \<and>
       (head s' = head s \<or> head s' = head s + 1) \<and>
       (tail s' = tail s \<or> tail s' = tail s + 1)) \<and>
    (let q = queue_run sz qs (RingBase sz d); q' = queue_step sz qc q in
       unat (head q - tail q) \<le> unat sz - 1 \<and> unat (head q' - tail q') \<le> unat sz - 1 \<and>
       (head q' = head q \<or> head q' = head q + 1) \<and>
       (tail q' = tail q \<or> tail q' = tail q + 1))"
proof -
  note i = ring_inv_init(1)[OF v, of d]
  have b: "ring_inv sz (buffer_run sz cs (RingBase sz d))"
    by (rule buffer_run_inv[OF v i])
  have b': "ring_inv sz (buffer_step sz c (buffer_run sz cs (RingBase sz d)))"
    by (rule buffer_step_inv[OF v b])
  have q: "ring_inv sz (queue_run sz qs (RingBase sz d))"
    by (rule queue_run_inv[OF v i])
  have q': "ring_inv sz (queue_step sz qc (queue_run sz qs (RingBase sz d)))"
    by (rule queue_step_inv[OF v q])
  show ?thesis
    unfolding Let_def
    using ring_inv_diff[OF b] ring_inv_diff[OF b'] ring_inv_diff[OF q] ring_inv_diff[OF q']
      buffer_step_cursors[of sz c "buffer_run sz cs (RingBase sz d)"]
      queue_step_cursors[of sz qc "queue_run sz qs (RingBase sz d)"]
    by (simp add: RingBase_def)
qed

theorem C7_cursor_invariant_witness:
  "valid_size 4 \<and>
   unat (head (buffer_run 4 [Write 1, Write 2, Write 3, Overwrite 5] (RingBase 4 (0::int)))
       - tail (buffer_run 4 [Write 1, Write 2, Write 3, Overwrite 5] (RingBase 4 (0::int)))) \<le> 3 \<and>
   unat (head (queue_run 4 [Enqueue 1, Enqueue 2, Dequeue] (RingBase 4 (0::int)))
       - tail (queue_run 4 [Enqueue 1, Enqueue 2, Dequeue] (RingBase 4 (0::int)))) \<le> 3"
proof -
  have h1: "valid_size 4" by (simp add: concrete_defs)
  note t = C7_cursor_invariant[OF h1, of "0::int" "[Write 1, Write 2, Write 3]" "Overwrite 5"
      "[Enqueue 1, Enqueue 2]" Dequeue, unfolded Let_def]
  have r1: "buffer_run 4 [Write 1, Write 2, Write 3, Overwrite 5] (RingBase 4 (0::int))
      = buffer_step 4 (Overwrite 5) (buffer_run 4 [Write 1, Write 2, Write 3] (RingBase 4 0))"
    by simp
  have r2: "queue_run 4 [Enqueue 1, Enqueue 2, Dequeue] (RingBase 4 (0::int))
      = queue_step 4 Dequeue (queue_run 4 [Enqueue 1, Enqueue 2] (RingBase 4 0))"
    by simp
  show ?thesis unfolding r1 r2 using h1 t by simp
qed

section \<open>Offsets beyond the capacity\<close>

lemma can_peek_out_of_range: "\<not> amnt < sz \<Longrightarrow> can_peek sz amnt s = (AssertFails, s, [])"
  by (simp add: can_peek_def)

lemma peek_out_of_range: "\<not> amnt < sz \<Longrightarrow> peek sz amnt s = (AssertFails, s, [])"
  by (simp add: peek_def can_peek_def)

lemma try_peek_out_of_range:
  assumes "valid_size sz" "\<not> amnt < sz"
  shows "try_peek sz amnt s = (Returns None, s, [])"
proof -
  have "unat (max_distance sz s) < unat sz"
    using available_spec_less[OF assms(1)] by (simp add: unat_max_distance[OF assms(1)])
  moreover have "unat sz \<le> unat amnt" using assms(2) by (simp add: word_less_nat_alt)
  ultimately have "max_distance sz s \<le> amnt" by (simp add: word_le_nat_alt)
  then show ?thesis by (simp add: try_peek_def)
qed

text \<open>
  C8. With capacity 4 and offset 4 on a fresh queue, \<^verbatim>\<open>can_peek\<close> and \<^verbatim>\<open>peek\<close> stop at the
  assertion that the offset is below the capacity, but \<^verbatim>\<open>try_peek\<close> returns an empty
  result: its availability check returns before its assertion is reached. The same holds
  for offset 7 on a full queue.
\<close>

theorem C8_try_peek_out_of_range:
  "can_peek 4 4 (RingBase 4 (0::int)) = (AssertFails, RingBase 4 0, []) \<and>
   peek 4 4 (RingBase 4 (0::int)) = (AssertFails, RingBase 4 0, []) \<and>
   try_peek 4 4 (RingBase 4 (0::int)) = (Returns None, RingBase 4 0, []) \<and>
   try_peek 4 7 (queue_run 4 [Enqueue 1, Enqueue 2, Enqueue 3] (RingBase 4 (0::int)))
     = (Returns None, queue_run 4 [Enqueue 1, Enqueue 2, Enqueue 3] (RingBase 4 0), [])"
  by (simp add: concrete_defs can_peek_def peek_def try_peek_def max_distance_def enqueue_def)

end
